theory Spec2Isabelle
  imports Main "HOL-Library.Multiset"
begin

section \<open>TinyRange: a shallow embedding of \<open>src/index.js\<close>\<close>

text \<open>
  A JavaScript string is modelled as a \<^typ>\<open>string\<close>, one \<^typ>\<open>char\<close> per code unit:
  the strings of the model are those whose code units are below 256. They include every
  character the validation accepts, except the blanks above \<open>U+00A0\<close> that \<open>\<bslash>s\<close> also
  matches (\<open>U+1680\<close>, \<open>U+2000\<close> to \<open>U+200A\<close>, \<open>U+2028\<close>, \<open>U+2029\<close>, \<open>U+202F\<close>,
  \<open>U+205F\<close>, \<open>U+3000\<close>, \<open>U+FEFF\<close>).

  A JavaScript number is modelled as an \<^typ>\<open>int\<close>. Every number the parser handles is
  read by \<open>parseFloat\<close> from a run of decimal digits with an optional minus sign, or is one
  of the two bounds, and the only operations on them are \<open>+ 1\<close>, comparison and the
  subtraction in the comparator of the sort; all of this is exact on integers of magnitude
  up to \<open>2^53\<close>. The rounding of longer literals to doubles and the sign of zero
  (\<open>parseFloat("-0")\<close>) are not modelled.
\<close>

subsection \<open>Regular expressions\<close>

text \<open>
  Every pattern of \<open>options.res\<close> is anchored at both ends (\<open>^ ... $\<close>, no flag), and is a
  sequence of character classes, each taken once, optionally (\<open>?\<close>) or one or more times
  (\<open>+\<close>). \<open>rx_test\<close> is \<open>RegExp.prototype.test\<close> for such a pattern: it tries every way
  of sharing the string between the items.
\<close>

datatype quant = One | Opt | Plus

type_synonym regexp = "(quant \<times> (char \<Rightarrow> bool)) list"

fun rx_test :: "regexp \<Rightarrow> string \<Rightarrow> bool" where
  "rx_test [] s = (s = [])"
| "rx_test ((One, p) # r) s =
     (case s of [] \<Rightarrow> False | c # cs \<Rightarrow> p c \<and> rx_test r cs)"
| "rx_test ((Opt, p) # r) s =
     ((case s of [] \<Rightarrow> False | c # cs \<Rightarrow> p c \<and> rx_test r cs) \<or> rx_test r s)"
| "rx_test ((Plus, p) # r) s =
     (case s of [] \<Rightarrow> False
      | c # cs \<Rightarrow> p c \<and> (rx_test ((Plus, p) # r) cs \<or> rx_test r cs))"

text \<open>The classes \<open>\<bslash>s\<close> and \<open>\<bslash>d\<close>, and a literal character.\<close>

definition is_space :: "char \<Rightarrow> bool" where
  "is_space c =
     (c \<in> set [CHR 0x09, CHR 0x0A, CHR 0x0B, CHR 0x0C, CHR 0x0D, CHR '' '', CHR 0xA0])"

definition is_digit :: "char \<Rightarrow> bool" where
  "is_digit c = (c \<in> set ''0123456789'')"

definition lit :: "char \<Rightarrow> char \<Rightarrow> bool" where
  "lit a c = (c = a)"

text \<open>The character class \<open>[\<bslash>s\<bslash>d\<bslash>-~,]\<close> of \<open>res.range\<close>.\<close>

definition range_char :: "char \<Rightarrow> bool" where
  "range_char c =
     (is_space c \<or> is_digit c \<or> c = CHR ''-'' \<or> c = CHR ''~'' \<or> c = CHR '','')"

subsection \<open>The options of the constructor\<close>

record options =
  opt_min :: int
  opt_max :: int

text \<open>\<open>var max = Math.pow(2, 32) - 1; this.options = {min: -max, max: max, ...}\<close>\<close>

definition TinyRange :: options where
  "TinyRange = (let mx = 2 ^ 32 - 1 in \<lparr>opt_min = - mx, opt_max = mx\<rparr>)"

text \<open>\<open>options.res\<close>: the validation pattern, and the five patterns by name.\<close>

definition res_range :: regexp where
  "res_range = [(Plus, range_char)]"

datatype pname = Number | Min2num | Num2max | Num2num | Numdashnum

fun res :: "pname \<Rightarrow> regexp" where
  "res Number = [(Opt, lit CHR ''-''), (Plus, is_digit)]"
| "res Min2num = [(One, lit CHR ''~''), (Opt, lit CHR ''-''), (Plus, is_digit)]"
| "res Num2max = [(Opt, lit CHR ''-''), (Plus, is_digit), (One, lit CHR ''~'')]"
| "res Num2num =
     [(Opt, lit CHR ''-''), (Plus, is_digit), (One, lit CHR ''~''),
      (Opt, lit CHR ''-''), (Plus, is_digit)]"
| "res Numdashnum =
     [(Opt, lit CHR ''-''), (Plus, is_digit), (One, lit CHR ''-''),
      (Opt, lit CHR ''-''), (Plus, is_digit)]"

subsection \<open>String primitives\<close>

text \<open>
  \<open>parseFloat\<close> on a string over the validated alphabet with the blanks removed: an
  optional minus sign and the longest run of digits after it; the rest of the string is
  ignored. \<open>None\<close> is \<open>NaN\<close> (no digit to read). The result is the integer the digits
  denote. The built-in returns a double: it is this integer when its magnitude is at most
  \<open>2^53\<close>, and the nearest double (or \<open>Infinity\<close>) beyond. Every theorem below that states
  the value read from a literal therefore assumes that the value is at most \<open>2^53\<close> in
  magnitude.
\<close>

definition digit_val :: "char \<Rightarrow> int" where
  "digit_val c = of_char c - 48"

definition digits_val :: "string \<Rightarrow> int" where
  "digits_val ds = foldl (\<lambda>a c. 10 * a + digit_val c) 0 ds"

definition parseFloat :: "string \<Rightarrow> int option" where
  "parseFloat s =
     (let neg = (s \<noteq> [] \<and> hd s = CHR ''-'');
          ds = takeWhile is_digit (if neg then tl s else s)
      in if ds = [] then None
         else Some (if neg then - digits_val ds else digits_val ds))"

text \<open>\<open>s.split(c)\<close>: the segments between the occurrences of \<open>c\<close>, empty ones kept.\<close>

fun split :: "char \<Rightarrow> string \<Rightarrow> string list" where
  "split c [] = [[]]"
| "split c (x # xs) =
     (if x = c then [] # split c xs
      else (case split c xs of [] \<Rightarrow> [[x]] | t # ts \<Rightarrow> (x # t) # ts))"

text \<open>\<open>s.indexOf(c, k)\<close>: the first position from \<open>k\<close> on that holds \<open>c\<close>, or \<open>-1\<close>.\<close>

definition indexOf :: "string \<Rightarrow> char \<Rightarrow> nat \<Rightarrow> int" where
  "indexOf s c k =
     (let r = drop k s
      in if c \<in> set r then int (k + length (takeWhile (\<lambda>x. x \<noteq> c) r)) else - 1)"

text \<open>
  \<open>s.substr(start, len)\<close> and \<open>s.substr(start)\<close> for \<open>start \<ge> 0\<close>; a negative length
  gives the empty string.
\<close>

definition substr2 :: "string \<Rightarrow> int \<Rightarrow> int \<Rightarrow> string" where
  "substr2 s start len = take (nat len) (drop (nat start) s)"

definition substr :: "string \<Rightarrow> int \<Rightarrow> string" where
  "substr s start = drop (nat start) s"

subsection \<open>The parsers\<close>

text \<open>
  \<open>TinyRange.parser.number\<close>, \<open>min2num\<close>, \<open>num2max\<close>, \<open>num2num\<close> and \<open>numdashnum\<close>
  are \<open>parser_number\<close> to \<open>parser_numdashnum\<close>. A range is the two-element array
  \<open>[low, high]\<close>. A parser gives \<open>None\<close> where the JavaScript would read \<open>NaN\<close>;
  \<open>parser_total\<close> below shows that this never happens on a string that matched the
  parser's pattern.
\<close>

type_synonym range = "int \<times> int"

definition parser_number :: "string \<Rightarrow> range option" where
  "parser_number s = (case parseFloat s of None \<Rightarrow> None | Some d \<Rightarrow> Some (d, d))"

definition parser_min2num :: "string \<Rightarrow> options \<Rightarrow> range option" where
  "parser_min2num s opts =
     (case parseFloat (substr s 1) of None \<Rightarrow> None | Some d \<Rightarrow> Some (opt_min opts, d))"

definition parser_num2max :: "string \<Rightarrow> options \<Rightarrow> range option" where
  "parser_num2max s opts =
     (case parseFloat (butlast s) of None \<Rightarrow> None | Some d \<Rightarrow> Some (d, opt_max opts))"

text \<open>\<open>if (r[0] > r[1]) return r.reverse(); return r;\<close>\<close>

definition ascending :: "int \<Rightarrow> int \<Rightarrow> range" where
  "ascending a b = (if a > b then (b, a) else (a, b))"

definition parser_num2num :: "string \<Rightarrow> range option" where
  "parser_num2num s =
     (case map parseFloat (split CHR ''~'' s) of
        Some a # Some b # _ \<Rightarrow> Some (ascending a b)
      | _ \<Rightarrow> None)"

definition parser_numdashnum :: "string \<Rightarrow> range option" where
  "parser_numdashnum s =
     (let d = indexOf s CHR ''-'' 1
      in case (parseFloat (substr2 s 0 d), parseFloat (substr s (d + 1))) of
           (Some a, Some b) \<Rightarrow> Some (ascending a b)
         | _ \<Rightarrow> None)"

fun parser :: "pname \<Rightarrow> string \<Rightarrow> options \<Rightarrow> range option" where
  "parser Number s opts = parser_number s"
| "parser Min2num s opts = parser_min2num s opts"
| "parser Num2max s opts = parser_num2max s opts"
| "parser Num2num s opts = parser_num2num s"
| "parser Numdashnum s opts = parser_numdashnum s"

text \<open>
  \<open>['number', 'min2num', 'num2max', 'num2num', 'numdashnum'].some(...)\<close>: the first name
  whose pattern matches, and the range its parser gives (\<open>ret\<close>, \<open>null\<close> when no pattern
  matches).
\<close>

definition matched :: "string \<Rightarrow> pname option" where
  "matched s = find (\<lambda>n. rx_test (res n) s) [Number, Min2num, Num2max, Num2num, Numdashnum]"

definition convert :: "options \<Rightarrow> string \<Rightarrow> range option" where
  "convert opts s = (case matched s of None \<Rightarrow> None | Some n \<Rightarrow> parser n s opts)"

subsection \<open>Merging\<close>

datatype error = InvalidString | TypeError

text \<open>
  An element of the returned array: a bare number, or a two-element array.
\<close>

datatype item = Num int | Pair int int

fun low :: "item \<Rightarrow> int" where
  "low (Num v) = v"
| "low (Pair a b) = a"

fun high :: "item \<Rightarrow> int" where
  "high (Num v) = v"
| "high (Pair a b) = b"

text \<open>
  \<open>TinyRange.prototype._merge\<close> is \<open>merge\<close>. Its loop works in place on the array
  \<open>rg\<close>, whose slots hold a range or \<open>null\<close> (\<open>None\<close>); \<open>merge_loop i n rg\<close> is the loop
  from the iteration with index \<open>i\<close> on. Reading a field of \<open>null\<close>, or of a slot past the
  end, is a \<open>TypeError\<close>.
\<close>

definition slot :: "range option list \<Rightarrow> nat \<Rightarrow> range option" where
  "slot rg k = (if k < length rg then rg ! k else None)"

function merge_loop :: "nat \<Rightarrow> nat \<Rightarrow> range option list \<Rightarrow> error + range option list" where
  "merge_loop i n rg =
     (if i < length rg then
        (case (slot rg i, slot rg n) of
           (Some ri, Some rn) \<Rightarrow>
             if fst ri > snd rn + 1 then merge_loop (i + 1) i rg
             else merge_loop (i + 1) n
                    ((if snd rn < snd ri then rg[n := Some (fst rn, snd ri)] else rg)
                       [i := None])
         | _ \<Rightarrow> Inl TypeError)
      else Inr rg)"
  by pat_completeness auto
termination
  by (relation "measure (\<lambda>(i, n, rg). length rg - i)") auto

declare merge_loop.simps [simp del]

text \<open>\<open>rg.forEach(function(r){ r && ret.push(r[0] == r[1] ? r[0] : r); })\<close>\<close>

definition wrap :: "range \<Rightarrow> item" where
  "wrap r = (if fst r = snd r then Num (fst r) else Pair (fst r) (snd r))"

fun wrap_output :: "range option list \<Rightarrow> item list" where
  "wrap_output [] = []"
| "wrap_output (None # rg) = wrap_output rg"
| "wrap_output (Some r # rg) = wrap r # wrap_output rg"

definition merge :: "range list \<Rightarrow> error + item list" where
  "merge rg =
     (case merge_loop 1 0 (map Some rg) of
        Inl e \<Rightarrow> Inl e
      | Inr rg' \<Rightarrow> Inr (wrap_output rg'))"

subsection \<open>parse\<close>

text \<open>
  \<open>str.replace(opts.res.blank, '').split(',')\<close>, and the segments that \<open>forEach\<close> does
  not skip.
\<close>

definition segments :: "string \<Rightarrow> string list" where
  "segments str = split CHR '','' (filter (\<lambda>c. \<not> is_space c) str)"

definition tokens :: "string \<Rightarrow> string list" where
  "tokens str = filter (\<lambda>s. length s \<noteq> 0) (segments str)"

text \<open>
  \<open>rg.sort(function(r1, r2){ return r1[0] - r2[0]; })\<close> sorts on the low bound; the sort
  is stable (ECMAScript 2019), as \<^const>\<open>sort_key\<close> is.
\<close>

definition parse :: "options \<Rightarrow> string \<Rightarrow> error + item list" where
  "parse opts str =
     (if \<not> rx_test res_range str then Inl InvalidString
      else
        let rg = List.map_filter (convert opts) (tokens str)
        in if length rg = 0 then Inr [] else merge (sort_key fst rg))"

subsection \<open>Auxiliary notions for the proofs\<close>

text \<open>
  The loop of \<open>_merge\<close> seen as a function of the range it is extending (\<open>rg[n]\<close>) and
  the ranges still to come: \<open>merge_loop_spec\<close> shows that the loop computes it.
\<close>

fun merge_from :: "range \<Rightarrow> range list \<Rightarrow> range list" where
  "merge_from cur [] = [cur]"
| "merge_from cur (x # xs) =
     (if fst x > snd cur + 1 then cur # merge_from x xs
      else merge_from (if snd cur < snd x then (fst cur, snd x) else cur) xs)"

fun merged :: "range list \<Rightarrow> range list" where
  "merged [] = []"
| "merged (x # xs) = merge_from x xs"

text \<open>A string without its leading minus sign, if it has one.\<close>

definition unsigned :: "string \<Rightarrow> string" where
  "unsigned s = (if s \<noteq> [] \<and> hd s = CHR ''-'' then tl s else s)"

text \<open>The integers a list of ranges covers.\<close>

definition cover :: "range list \<Rightarrow> int set" where
  "cover rs = (\<Union>r\<in>set rs. {fst r..snd r})"

section \<open>Regular expressions\<close>

lemma rx_test_plus_only: "rx_test [(Plus, p)] s = (s \<noteq> [] \<and> list_all p s)"
  by (induction s) auto

lemma rx_test_plus:
  assumes "r = [] \<or> (\<exists>q r'. r = (One, q) # r' \<and> (\<forall>c. q c \<longrightarrow> \<not> p c))"
  shows "rx_test ((Plus, p) # r) s = (takeWhile p s \<noteq> [] \<and> rx_test r (dropWhile p s))"
proof (induction s)
  case Nil
  show ?case by simp
next
  case (Cons c cs)
  show ?case
  proof (cases "p c")
    case False
    then show ?thesis by simp
  next
    case True
    show ?thesis
    proof (cases "takeWhile p cs = []")
      case True
      then have "dropWhile p cs = cs"
        by (cases cs) (auto split: if_splits)
      with True \<open>p c\<close> Cons.IH show ?thesis by simp
    next
      case False
      then obtain c' cs' where cs: "cs = c' # cs'" and "p c'"
        by (cases cs) (auto split: if_splits)
      with assms have "\<not> rx_test r cs" by auto
      with False \<open>p c\<close> Cons.IH show ?thesis by simp
    qed
  qed
qed

lemma not_digit_minus [simp]: "\<not> is_digit CHR ''-''"
  by (simp add: is_digit_def)

lemma not_digit_tilde [simp]: "\<not> is_digit CHR ''~''"
  by (simp add: is_digit_def)

lemma rx_test_opt_minus:
  "rx_test ((Opt, lit CHR ''-'') # (Plus, is_digit) # r) s
     = rx_test ((Plus, is_digit) # r) (unsigned s)"
  by (cases s) (auto simp: unsigned_def lit_def)

lemma parseFloat_unsigned:
  "parseFloat s = (if takeWhile is_digit (unsigned s) = [] then None
     else Some (if s \<noteq> [] \<and> hd s = CHR ''-'' then - digits_val (takeWhile is_digit (unsigned s))
                else digits_val (takeWhile is_digit (unsigned s))))"
  by (simp add: parseFloat_def unsigned_def Let_def)

lemma number_iff:
  "rx_test (res Number) s = (unsigned s \<noteq> [] \<and> list_all is_digit (unsigned s))"
  by (simp add: rx_test_opt_minus rx_test_plus_only del: rx_test.simps)

lemma min2num_iff:
  "rx_test (res Min2num) s = (s \<noteq> [] \<and> hd s = CHR ''~'' \<and> rx_test (res Number) (tl s))"
  by (cases s) (auto simp: lit_def)

lemma rx_test_tilde_end: "rx_test [(One, lit CHR ''~'')] s = (s = ''~'')"
  by (cases s) (auto simp: lit_def)

lemma rx_test_one: "rx_test ((One, lit a) # r) s = (\<exists>t. s = a # t \<and> rx_test r t)"
  by (cases s) (auto simp: lit_def)

lemma num2max_iff:
  "rx_test (res Num2max) s =
     (takeWhile is_digit (unsigned s) \<noteq> [] \<and> dropWhile is_digit (unsigned s) = ''~'')"
proof -
  have "rx_test (res Num2max) s = rx_test [(Plus, is_digit), (One, lit CHR ''~'')] (unsigned s)"
    by (simp add: rx_test_opt_minus del: rx_test.simps)
  also have "\<dots> = (takeWhile is_digit (unsigned s) \<noteq> [] \<and>
      rx_test [(One, lit CHR ''~'')] (dropWhile is_digit (unsigned s)))"
    by (rule rx_test_plus) (simp add: lit_def)
  finally show ?thesis by (simp only: rx_test_tilde_end)
qed

lemma num2num_iff:
  "rx_test (res Num2num) s =
     (takeWhile is_digit (unsigned s) \<noteq> [] \<and>
       (\<exists>t. dropWhile is_digit (unsigned s) = CHR ''~'' # t \<and> rx_test (res Number) t))"
proof -
  have "rx_test (res Num2num) s =
      rx_test ((Plus, is_digit) # (One, lit CHR ''~'') # res Number) (unsigned s)"
    by (simp add: rx_test_opt_minus del: rx_test.simps)
  also have "\<dots> = (takeWhile is_digit (unsigned s) \<noteq> [] \<and>
      rx_test ((One, lit CHR ''~'') # res Number) (dropWhile is_digit (unsigned s)))"
    by (rule rx_test_plus) (simp add: lit_def)
  finally show ?thesis by (simp only: rx_test_one)
qed

lemma numdashnum_iff:
  "rx_test (res Numdashnum) s =
     (takeWhile is_digit (unsigned s) \<noteq> [] \<and>
       (\<exists>t. dropWhile is_digit (unsigned s) = CHR ''-'' # t \<and> rx_test (res Number) t))"
proof -
  have "rx_test (res Numdashnum) s =
      rx_test ((Plus, is_digit) # (One, lit CHR ''-'') # res Number) (unsigned s)"
    by (simp add: rx_test_opt_minus del: rx_test.simps)
  also have "\<dots> = (takeWhile is_digit (unsigned s) \<noteq> [] \<and>
      rx_test ((One, lit CHR ''-'') # res Number) (dropWhile is_digit (unsigned s)))"
    by (rule rx_test_plus) (simp add: lit_def)
  finally show ?thesis by (simp only: rx_test_one)
qed

declare res.simps [simp del] rx_test.simps [simp del]

lemma number_decomp:
  "rx_test (res Number) s =
     (\<exists>ds. ds \<noteq> [] \<and> list_all is_digit ds \<and> (s = ds \<or> s = CHR ''-'' # ds))"
proof
  assume "rx_test (res Number) s"
  then have u: "unsigned s \<noteq> []" "list_all is_digit (unsigned s)"
    by (simp_all add: number_iff)
  have "s = unsigned s \<or> s = CHR ''-'' # unsigned s"
    by (cases s) (auto simp: unsigned_def)
  with u show "\<exists>ds. ds \<noteq> [] \<and> list_all is_digit ds \<and> (s = ds \<or> s = CHR ''-'' # ds)"
    by blast
next
  assume "\<exists>ds. ds \<noteq> [] \<and> list_all is_digit ds \<and> (s = ds \<or> s = CHR ''-'' # ds)"
  then obtain ds where ds: "ds \<noteq> []" "list_all is_digit ds" "s = ds \<or> s = CHR ''-'' # ds"
    by blast
  then have "hd ds \<noteq> CHR ''-''"
    by (cases ds) auto
  with ds have "unsigned s = ds"
    by (auto simp: unsigned_def)
  with ds show "rx_test (res Number) s"
    by (simp add: number_iff)
qed

lemma unsigned_append:
  "rx_test (res Number) l \<Longrightarrow> unsigned (l @ t) = unsigned l @ t"
  by (auto simp: number_decomp unsigned_def)

lemma sign_unsigned:
  "\<exists>sg. (sg = [] \<or> sg = ''-'') \<and> s = sg @ unsigned s"
  by (cases s) (auto simp: unsigned_def)

lemma takeWhile_digits:
  "list_all is_digit ds \<Longrightarrow> t = [] \<or> \<not> is_digit (hd t) \<Longrightarrow> takeWhile is_digit (ds @ t) = ds"
  by (cases t) (auto simp: list_all_iff takeWhile_append2 takeWhile_eq_all_conv)

lemma dropWhile_digits:
  "list_all is_digit ds \<Longrightarrow> t = [] \<or> \<not> is_digit (hd t) \<Longrightarrow> dropWhile is_digit (ds @ t) = t"
  by (cases t) (auto simp: list_all_iff dropWhile_append2 dropWhile_append3)

lemma number_unsigned:
  "rx_test (res Number) l \<Longrightarrow> unsigned l \<noteq> [] \<and> list_all is_digit (unsigned l)"
  by (simp add: number_iff)

lemma number_sign:
  assumes "unsigned s = ds @ t" "ds \<noteq> []" "list_all is_digit ds"
  shows "\<exists>l. rx_test (res Number) l \<and> s = l @ t"
proof -
  from sign_unsigned [of s] assms(1) consider "s = ds @ t" | "s = (CHR ''-'' # ds) @ t"
    by auto
  then show ?thesis
  proof cases
    case 1
    with assms(2,3) show ?thesis by (auto simp: number_decomp)
  next
    case 2
    have "rx_test (res Number) (CHR ''-'' # ds)"
      using assms(2,3) by (auto simp: number_decomp)
    with 2 show ?thesis by blast
  qed
qed

lemma after_number:
  assumes "\<not> is_digit c"
  shows "(takeWhile is_digit (unsigned s) \<noteq> [] \<and> dropWhile is_digit (unsigned s) = c # t)
     = (\<exists>l. rx_test (res Number) l \<and> s = l @ c # t)"
proof
  assume a: "takeWhile is_digit (unsigned s) \<noteq> [] \<and> dropWhile is_digit (unsigned s) = c # t"
  have "unsigned s = takeWhile is_digit (unsigned s) @ dropWhile is_digit (unsigned s)"
    by simp
  with a have "unsigned s = takeWhile is_digit (unsigned s) @ c # t"
    by simp
  moreover have "list_all is_digit (takeWhile is_digit (unsigned s))"
    by (auto simp: list_all_iff dest: set_takeWhileD)
  ultimately show "\<exists>l. rx_test (res Number) l \<and> s = l @ c # t"
    using a number_sign by blast
next
  assume "\<exists>l. rx_test (res Number) l \<and> s = l @ c # t"
  then obtain l where l: "rx_test (res Number) l" "s = l @ c # t"
    by blast
  then have u: "unsigned s = unsigned l @ c # t"
    by (simp add: unsigned_append)
  from l(1) have d: "unsigned l \<noteq> []" "list_all is_digit (unsigned l)"
    by (simp_all add: number_unsigned)
  from d(2) assms have "takeWhile is_digit (unsigned l @ c # t) = unsigned l"
    by (intro takeWhile_digits) simp_all
  moreover from d(2) assms have "dropWhile is_digit (unsigned l @ c # t) = c # t"
    by (intro dropWhile_digits) simp_all
  ultimately show "takeWhile is_digit (unsigned s) \<noteq> [] \<and> dropWhile is_digit (unsigned s) = c # t"
    using u d(1) by simp
qed

lemma min2num_decomp:
  "rx_test (res Min2num) s = (\<exists>l. rx_test (res Number) l \<and> s = CHR ''~'' # l)"
  by (cases s) (auto simp: min2num_iff)

lemma num2max_decomp:
  "rx_test (res Num2max) s = (\<exists>l. rx_test (res Number) l \<and> s = l @ ''~'')"
  unfolding num2max_iff by (rule after_number) simp

lemma num2num_decomp:
  "rx_test (res Num2num) s =
     (\<exists>l t. rx_test (res Number) l \<and> rx_test (res Number) t \<and> s = l @ CHR ''~'' # t)"
proof -
  have "rx_test (res Num2num) s =
     (\<exists>t. (takeWhile is_digit (unsigned s) \<noteq> [] \<and> dropWhile is_digit (unsigned s) = CHR ''~'' # t)
        \<and> rx_test (res Number) t)"
    unfolding num2num_iff by blast
  also have "\<dots> = (\<exists>t. (\<exists>l. rx_test (res Number) l \<and> s = l @ CHR ''~'' # t) \<and> rx_test (res Number) t)"
    by (simp only: after_number [OF not_digit_tilde])
  finally show ?thesis by blast
qed

lemma numdashnum_decomp:
  "rx_test (res Numdashnum) s =
     (\<exists>l t. rx_test (res Number) l \<and> rx_test (res Number) t \<and> s = l @ CHR ''-'' # t)"
proof -
  have "rx_test (res Numdashnum) s =
     (\<exists>t. (takeWhile is_digit (unsigned s) \<noteq> [] \<and> dropWhile is_digit (unsigned s) = CHR ''-'' # t)
        \<and> rx_test (res Number) t)"
    unfolding numdashnum_iff by blast
  also have "\<dots> = (\<exists>t. (\<exists>l. rx_test (res Number) l \<and> s = l @ CHR ''-'' # t) \<and> rx_test (res Number) t)"
    by (simp only: after_number [OF not_digit_minus])
  finally show ?thesis by blast
qed

section \<open>The merge loop\<close>

lemma wrap_output_append:
  "wrap_output (xs @ ys) = wrap_output xs @ wrap_output ys"
  by (induction xs rule: wrap_output.induct) simp_all

lemma wrap_output_replicate_None [simp]:
  "wrap_output (replicate k None) = []"
  by (induction k) simp_all

lemma wrap_output_map_Some [simp]:
  "wrap_output (map Some xs) = map wrap xs"
  by (induction xs) simp_all

lemma slot_cur:
  "slot (pre @ Some cur # rest) (length pre) = Some cur"
  by (simp add: slot_def)

lemma slot_next:
  "slot (pre @ Some cur # replicate k None @ Some x # rest) (length pre + 1 + k) = Some x"
  by (simp add: slot_def nth_append)

lemma update_next:
  fixes rest :: "range option list"
  shows "(pre @ c # replicate k None @ Some x # rest)[length pre + 1 + k := None]
     = pre @ c # replicate (Suc k) None @ rest"
proof -
  have "(replicate k None @ Some x # rest)[k := None] = replicate k None @ None # rest"
    by (simp add: list_update_append)
  then have "(pre @ c # replicate k None @ Some x # rest)[length pre + 1 + k := None]
     = pre @ c # replicate k None @ None # rest"
    by (simp add: list_update_append)
  then show ?thesis by (simp add: replicate_append_same)
qed

lemma update_cur:
  "(pre @ c # rest)[length pre := d] = pre @ d # rest"
  by (simp add: list_update_append)

lemma merge_loop_spec:
  "\<exists>rg'. merge_loop (length pre + 1 + k) (length pre)
            (pre @ Some cur # replicate k None @ map Some xs) = Inr rg'
       \<and> wrap_output rg' = wrap_output pre @ map wrap (merge_from cur xs)"
proof (induction xs arbitrary: pre cur k)
  case Nil
  show ?case
    by (subst merge_loop.simps) (simp add: wrap_output_append)
next
  case (Cons x xs)
  let ?rg = "pre @ Some cur # replicate k None @ map Some (x # xs)"
  have len: "length pre + 1 + k < length ?rg" by simp
  have si: "slot ?rg (length pre + 1 + k) = Some x"
    using slot_next [of pre cur k x "map Some xs"] by simp
  have sn: "slot ?rg (length pre) = Some cur"
    by (rule slot_cur)
  show ?case
  proof (cases "fst x > snd cur + 1")
    case True
    have step: "merge_loop (length pre + 1 + k) (length pre) ?rg
        = merge_loop (length pre + 1 + k + 1) (length pre + 1 + k) ?rg"
      by (subst merge_loop.simps) (simp only: len si sn True if_True prod.case option.case)
    have shape: "?rg = (pre @ Some cur # replicate k None) @ Some x # replicate 0 None @ map Some xs"
      by simp
    have l: "length (pre @ Some cur # replicate k None) = length pre + 1 + k" by simp
    from Cons.IH [of "pre @ Some cur # replicate k None" 0 x]
    obtain rg' where "merge_loop (length pre + 1 + k + 1) (length pre + 1 + k) ?rg = Inr rg'"
      and "wrap_output rg' =
         wrap_output (pre @ Some cur # replicate k None) @ map wrap (merge_from x xs)"
      unfolding l shape [symmetric] by auto
    then show ?thesis using True step by (simp add: wrap_output_append)
  next
    case False
    let ?cur' = "if snd cur < snd x then (fst cur, snd x) else cur"
    have upd: "(if snd cur < snd x then ?rg[length pre := Some (fst cur, snd x)] else ?rg)
       = pre @ Some ?cur' # replicate k None @ map Some (x # xs)"
      by (simp add: update_cur)
    have step: "merge_loop (length pre + 1 + k) (length pre) ?rg
        = merge_loop (length pre + 1 + k + 1) (length pre)
           ((if snd cur < snd x then ?rg[length pre := Some (fst cur, snd x)] else ?rg)
               [length pre + 1 + k := None])"
      by (subst merge_loop.simps) (simp only: len si sn False if_True if_False prod.case option.case)
    have "(pre @ Some ?cur' # replicate k None @ map Some (x # xs))[length pre + 1 + k := None]
       = pre @ Some ?cur' # replicate (Suc k) None @ map Some xs"
      using update_next [of pre "Some ?cur'" k x "map Some xs"] by simp
    with step upd have step': "merge_loop (length pre + 1 + k) (length pre) ?rg
        = merge_loop (length pre + 1 + Suc k) (length pre)
            (pre @ Some ?cur' # replicate (Suc k) None @ map Some xs)"
      by simp
    from Cons.IH [of pre "Suc k" ?cur'] show ?thesis
      using False step' by simp
  qed
qed

lemma merge_eq: "merge rg = Inr (map wrap (merged rg))"
proof (cases rg)
  case Nil
  then show ?thesis
    by (simp add: merge_def merge_loop.simps)
next
  case (Cons x xs)
  from merge_loop_spec [of "[]" 0 x xs]
  obtain rg' where "merge_loop 1 0 (Some x # map Some xs) = Inr rg'"
    and "wrap_output rg' = map wrap (merge_from x xs)"
    by auto
  with Cons show ?thesis by (simp add: merge_def)
qed

section \<open>Validation and tokens\<close>

lemma range_iff: "rx_test res_range s = (s \<noteq> [] \<and> list_all range_char s)"
  by (simp add: res_range_def rx_test_plus_only)

text \<open>
  \<open>parse\<close> in closed form: the only error is the one the validation raises, since the
  loop of \<open>_merge\<close> never reads a field of \<open>null\<close> (\<open>merge_eq\<close>).
\<close>

lemma parse_eq:
  "parse opts s =
     (if s = [] \<or> \<not> list_all range_char s then Inl InvalidString
      else Inr (map wrap (merged (sort_key fst (List.map_filter (convert opts) (tokens s))))))"
  by (auto simp: parse_def range_iff merge_eq Let_def)

lemma split_all_sep:
  "list_all (\<lambda>c. c = sep) s \<Longrightarrow> filter (\<lambda>t. length t \<noteq> 0) (split sep s) = []"
  by (induction s) auto

lemma tokens_blank:
  assumes "list_all (\<lambda>c. is_space c \<or> c = CHR '','') s"
  shows "tokens s = []"
proof -
  from assms have "list_all (\<lambda>c. c = CHR '','') (filter (\<lambda>c. \<not> is_space c) s)"
    by (induction s) auto
  then show ?thesis
    unfolding tokens_def segments_def by (rule split_all_sep)
qed

lemma blank_range_char: "is_space c \<or> c = CHR '','' \<Longrightarrow> range_char c"
  by (auto simp: range_char_def)

section \<open>What the merge computes\<close>

lemma merge_from_low:
  "r \<in> set (merge_from cur xs) \<Longrightarrow> sorted (map fst (cur # xs)) \<Longrightarrow> fst cur \<le> fst r"
proof (induction xs arbitrary: cur)
  case Nil
  then show ?case by simp
next
  case (Cons x xs)
  show ?case
  proof (cases "fst x > snd cur + 1")
    case True
    with Cons.prems(1) have "r = cur \<or> r \<in> set (merge_from x xs)" by simp
    then show ?thesis
    proof
      assume "r = cur" then show ?thesis by simp
    next
      assume "r \<in> set (merge_from x xs)"
      with Cons.IH [of x] Cons.prems(2) have "fst x \<le> fst r" by simp
      with Cons.prems(2) show ?thesis by simp
    qed
  next
    case False
    let ?c = "if snd cur < snd x then (fst cur, snd x) else cur"
    from False Cons.prems(1) have "r \<in> set (merge_from ?c xs)" by simp
    moreover from Cons.prems(2) have "sorted (map fst (?c # xs))" by auto
    ultimately have "fst ?c \<le> fst r" by (rule Cons.IH)
    then show ?thesis by (simp split: if_splits)
  qed
qed

lemma merge_from_sorted:
  "sorted (map fst (cur # xs)) \<Longrightarrow> sorted (map fst (merge_from cur xs))"
proof (induction xs arbitrary: cur)
  case Nil
  then show ?case by simp
next
  case (Cons x xs)
  show ?case
  proof (cases "fst x > snd cur + 1")
    case True
    from Cons.prems have sx: "sorted (map fst (x # xs))" and le: "fst cur \<le> fst x" by simp_all
    have "\<forall>r\<in>set (merge_from x xs). fst cur \<le> fst r"
      using merge_from_low [OF _ sx] le by fastforce
    with Cons.IH [OF sx] True show ?thesis by simp
  next
    case False
    let ?c = "if snd cur < snd x then (fst cur, snd x) else cur"
    from Cons.prems have "sorted (map fst (?c # xs))" by auto
    then have "sorted (map fst (merge_from ?c xs))" by (rule Cons.IH)
    with False show ?thesis by simp
  qed
qed

lemma merge_from_gaps:
  "sorted (map fst (cur # xs)) \<Longrightarrow> sorted_wrt (\<lambda>a b. snd a + 1 < fst b) (merge_from cur xs)"
proof (induction xs arbitrary: cur)
  case Nil
  then show ?case by simp
next
  case (Cons x xs)
  show ?case
  proof (cases "fst x > snd cur + 1")
    case True
    from Cons.prems have sx: "sorted (map fst (x # xs))" by simp
    have "\<forall>r\<in>set (merge_from x xs). snd cur + 1 < fst r"
      using merge_from_low [OF _ sx] True by fastforce
    with Cons.IH [OF sx] True show ?thesis by simp
  next
    case False
    let ?c = "if snd cur < snd x then (fst cur, snd x) else cur"
    from Cons.prems have "sorted (map fst (?c # xs))" by auto
    then have "sorted_wrt (\<lambda>a b. snd a + 1 < fst b) (merge_from ?c xs)" by (rule Cons.IH)
    with False show ?thesis by simp
  qed
qed

lemma merge_from_proper:
  "list_all (\<lambda>r. fst r \<le> snd r) (cur # xs) \<Longrightarrow> list_all (\<lambda>r. fst r \<le> snd r) (merge_from cur xs)"
  by (induction xs arbitrary: cur) auto

lemma cover_Cons: "cover (r # rs) = {fst r..snd r} \<union> cover rs"
  by (simp add: cover_def)

lemma cover_Nil: "cover [] = {}"
  by (simp add: cover_def)

lemma merge_from_cover:
  "sorted (map fst (cur # xs)) \<Longrightarrow> cover (merge_from cur xs) = cover (cur # xs)"
proof (induction xs arbitrary: cur)
  case Nil
  then show ?case by simp
next
  case (Cons x xs)
  show ?case
  proof (cases "fst x > snd cur + 1")
    case True
    from Cons.prems have sx: "sorted (map fst (x # xs))" by simp
    from Cons.IH [OF sx] True show ?thesis by (simp add: cover_Cons)
  next
    case False
    let ?c = "if snd cur < snd x then (fst cur, snd x) else cur"
    from Cons.prems have "sorted (map fst (?c # xs))" by auto
    then have "cover (merge_from ?c xs) = cover (?c # xs)" by (rule Cons.IH)
    moreover from Cons.prems have "fst cur \<le> fst x" by simp
    with False have "{fst ?c..snd ?c} = {fst cur..snd cur} \<union> {fst x..snd x}"
      by auto
    ultimately show ?thesis using False by (simp add: cover_Cons Un_assoc)
  qed
qed

lemma merged_sorted: "sorted (map fst xs) \<Longrightarrow> sorted (map fst (merged xs))"
  by (cases xs) (simp_all add: merge_from_sorted del: sorted_map)

lemma merged_gaps:
  "sorted (map fst xs) \<Longrightarrow> sorted_wrt (\<lambda>a b. snd a + 1 < fst b) (merged xs)"
  by (cases xs) (simp_all add: merge_from_gaps)

lemma merged_proper:
  "list_all (\<lambda>r. fst r \<le> snd r) xs \<Longrightarrow> list_all (\<lambda>r. fst r \<le> snd r) (merged xs)"
  by (cases xs) (simp_all add: merge_from_proper del: merge_from.simps)

lemma merged_cover: "sorted (map fst xs) \<Longrightarrow> cover (merged xs) = cover xs"
  by (cases xs) (simp_all add: merge_from_cover)

lemma low_wrap [simp]: "low (wrap r) = fst r"
  by (simp add: wrap_def)

lemma high_wrap [simp]: "high (wrap r) = snd r"
  by (simp add: wrap_def)

lemma merge_from_adjacent:
  "merge_from cur (pre @ (a, b) # (b + 1, c) # post) = merge_from cur (pre @ (a, max b c) # post)"
proof (induction pre arbitrary: cur)
  case Nil
  show ?case by (auto simp: max_def)
next
  case (Cons p pre)
  then show ?case by simp
qed

lemma merged_adjacent:
  "merged (pre @ (a, b) # (b + 1, c) # post) = merged (pre @ (a, max b c) # post)"
proof (cases pre)
  case Nil
  then show ?thesis by (auto simp: max_def)
next
  case (Cons p pre')
  then show ?thesis by (simp add: merge_from_adjacent del: merge_from.simps)
qed

lemma wrap_not_Pair_same: "Pair v v \<noteq> wrap r"
  by (simp add: wrap_def)

subsection \<open>The merged list is determined by the integers it covers\<close>

lemma cover_above:
  assumes "\<forall>r\<in>set rs. h + 1 < fst r" "z \<in> cover rs"
  shows "h + 1 < z"
  using assms by (auto simp: cover_def)

lemma canon_unique:
  assumes "list_all (\<lambda>r. fst r \<le> snd r) xs" "sorted_wrt (\<lambda>a b. snd a + 1 < fst b) xs"
    and "list_all (\<lambda>r. fst r \<le> snd r) ys" "sorted_wrt (\<lambda>a b. snd a + 1 < fst b) ys"
    and "cover xs = cover ys"
  shows "xs = ys"
  using assms
proof (induction xs arbitrary: ys)
  case Nil
  show ?case
  proof (cases ys)
    case Nil
    then show ?thesis by simp
  next
    case (Cons y ys')
    with Nil.prems(3) have "fst y \<in> cover ys" by (simp add: cover_Cons)
    with Nil.prems(5) show ?thesis by (simp add: cover_Nil)
  qed
next
  case (Cons x xs)
  show ?case
  proof (cases ys)
    case Nil
    from Cons.prems(1) have "fst x \<in> cover (x # xs)" by (simp add: cover_Cons)
    with Cons.prems(5) Nil show ?thesis by (simp add: cover_Nil)
  next
    case (Cons y ys')
    from Cons.prems(1) have px: "fst x \<le> snd x" by simp
    from Cons.prems(3) Cons have py: "fst y \<le> snd y" by simp
    from Cons.prems(2) have ax: "\<And>z. z \<in> cover xs \<Longrightarrow> snd x + 1 < z"
      using cover_above [of xs "snd x"] by simp
    from Cons.prems(4) Cons have ay: "\<And>z. z \<in> cover ys' \<Longrightarrow> snd y + 1 < z"
      using cover_above [of ys' "snd y"] by simp
    from Cons.prems(5) Cons have eq: "{fst x..snd x} \<union> cover xs = {fst y..snd y} \<union> cover ys'"
      by (simp add: cover_Cons)
    have mem: "\<And>z. (fst x \<le> z \<and> z \<le> snd x \<or> z \<in> cover xs) = (fst y \<le> z \<and> z \<le> snd y \<or> z \<in> cover ys')"
      using eq by (auto simp: set_eq_iff)
    have f: "fst x = fst y"
    proof (rule antisym)
      from mem [of "fst x"] px py ay [of "fst x"] show "fst y \<le> fst x" by auto
      from mem [of "fst y"] px py ax [of "fst y"] show "fst x \<le> fst y" by auto
    qed
    have s: "snd x = snd y"
    proof (rule antisym)
      show "snd x \<le> snd y"
      proof (rule ccontr)
        assume "\<not> snd x \<le> snd y"
        with mem [of "snd y + 1"] f px py ay [of "snd y + 1"] show False by auto
      qed
      show "snd y \<le> snd x"
      proof (rule ccontr)
        assume "\<not> snd y \<le> snd x"
        with mem [of "snd x + 1"] f px py ax [of "snd x + 1"] show False by auto
      qed
    qed
    have xy: "x = y" using f s by (simp add: prod_eq_iff)
    have "cover xs = cover ys'"
    proof (rule set_eqI)
      fix z
      show "(z \<in> cover xs) = (z \<in> cover ys')"
        using mem [of z] ax [of z] ay [of z] f s by auto
    qed
    with Cons.IH [of ys'] Cons.prems Cons have "xs = ys'" by simp
    with xy Cons show ?thesis by simp
  qed
qed

lemma cover_set: "set xs = set ys \<Longrightarrow> cover xs = cover ys"
  by (simp add: cover_def)

lemma merged_sort_perm:
  assumes "mset xs = mset ys" "list_all (\<lambda>r. fst r \<le> snd r) xs"
  shows "merged (sort_key fst xs) = merged (sort_key fst ys)"
proof (rule canon_unique)
  have sx: "sorted (map fst (sort_key fst xs))" and sy: "sorted (map fst (sort_key fst ys))"
    by simp_all
  from assms(1) have set: "set xs = set ys" by (rule mset_eq_setD)
  from assms(2) show "list_all (\<lambda>r. fst r \<le> snd r) (merged (sort_key fst xs))"
    by (intro merged_proper) (simp add: list_all_iff)
  from assms(2) set show "list_all (\<lambda>r. fst r \<le> snd r) (merged (sort_key fst ys))"
    by (intro merged_proper) (simp add: list_all_iff)
  show "sorted_wrt (\<lambda>a b. snd a + 1 < fst b) (merged (sort_key fst xs))"
    by (rule merged_gaps [OF sx])
  show "sorted_wrt (\<lambda>a b. snd a + 1 < fst b) (merged (sort_key fst ys))"
    by (rule merged_gaps [OF sy])
  show "cover (merged (sort_key fst xs)) = cover (merged (sort_key fst ys))"
  proof -
    have "cover (sort_key fst xs) = cover (sort_key fst ys)"
      using set by (intro cover_set) simp
    then show ?thesis
      by (simp only: merged_cover [OF sx] merged_cover [OF sy])
  qed
qed

lemma mset_map_filter:
  "mset xs = mset ys \<Longrightarrow> mset (List.map_filter f xs) = mset (List.map_filter f ys)"
proof -
  assume a: "mset xs = mset ys"
  have "\<And>zs. mset (List.map_filter f zs)
      = image_mset (the \<circ> f) (filter_mset (\<lambda>x. f x \<noteq> None) (mset zs))"
    by (simp add: List.map_filter_def)
  with a show ?thesis by simp
qed

section \<open>Tokens and their patterns\<close>

lemma number_chars:
  "rx_test (res Number) l \<Longrightarrow> c \<in> set l \<Longrightarrow> is_digit c \<or> c = CHR ''-''"
  by (auto simp: number_decomp list_all_iff)

lemma number_not_Nil: "rx_test (res Number) l \<Longrightarrow> l \<noteq> []"
  by (auto simp: number_decomp)

lemma number_hd: "rx_test (res Number) l \<Longrightarrow> is_digit (hd l) \<or> hd l = CHR ''-''"
  using number_chars [of l "hd l"] number_not_Nil [of l] by simp

lemma number_last: "rx_test (res Number) l \<Longrightarrow> is_digit (last l)"
  by (auto simp: number_decomp list_all_iff)

lemma number_tl_digits: "rx_test (res Number) l \<Longrightarrow> list_all is_digit (tl l)"
  by (auto simp: number_decomp list_all_iff dest: list.set_sel(2))

lemma parseFloat_number:
  "rx_test (res Number) l \<Longrightarrow> \<exists>v. parseFloat l = Some v"
  by (simp add: parseFloat_unsigned number_iff takeWhile_eq_all_conv [THEN iffD2] list_all_iff)

lemma parseFloat_prefix:
  assumes "rx_test (res Number) l" "\<not> is_digit c"
  shows "parseFloat (l @ c # t) = parseFloat l"
proof -
  from assms(1) have d: "unsigned l \<noteq> []" "list_all is_digit (unsigned l)"
    by (simp_all add: number_unsigned)
  from assms(1) have u: "unsigned (l @ c # t) = unsigned l @ c # t"
    by (rule unsigned_append)
  from d(2) assms(2) have 1: "takeWhile is_digit (unsigned l @ c # t) = unsigned l"
    by (intro takeWhile_digits) simp_all
  from d(2) have 2: "takeWhile is_digit (unsigned l) = unsigned l"
    by (simp add: takeWhile_eq_all_conv list_all_iff)
  from assms(1) have "l \<noteq> []" by (rule number_not_Nil)
  then have 3: "hd (l @ c # t) = hd l" by simp
  show ?thesis
    by (simp only: parseFloat_unsigned u 1 2 3) (simp add: \<open>l \<noteq> []\<close>)
qed

lemma split_not_Nil [simp]: "split c s \<noteq> []"
  by (induction s) (auto split: list.splits)

lemma split_append:
  "split c (xs @ c # ys) = split c xs @ split c ys"
  by (induction xs) (auto split: list.splits)

lemma split_notin: "c \<notin> set s \<Longrightarrow> split c s = [s]"
  by (induction s) auto

lemma number_no_tilde: "rx_test (res Number) l \<Longrightarrow> CHR ''~'' \<notin> set l"
  using number_chars [of l "CHR ''~''"] by auto

lemma split_num2num:
  "rx_test (res Number) l \<Longrightarrow> rx_test (res Number) t \<Longrightarrow> split CHR ''~'' (l @ CHR ''~'' # t) = [l, t]"
  by (simp add: split_append split_notin number_no_tilde)

lemma indexOf_dash:
  assumes "rx_test (res Number) l"
  shows "indexOf (l @ CHR ''-'' # t) CHR ''-'' 1 = int (length l)"
proof -
  from assms have n: "l \<noteq> []" by (rule number_not_Nil)
  then have d: "drop 1 (l @ CHR ''-'' # t) = tl l @ CHR ''-'' # t"
    by (cases l) simp_all
  from assms have "list_all is_digit (tl l)" by (rule number_tl_digits)
  then have "\<forall>x\<in>set (tl l). x \<noteq> CHR ''-''"
    by (auto simp: list_all_iff)
  then have "takeWhile (\<lambda>x. x \<noteq> CHR ''-'') (tl l @ CHR ''-'' # t) = tl l"
    by (simp add: takeWhile_append2)
  with d n show ?thesis
    by (simp add: indexOf_def)
qed

lemma parser_num2num_eq:
  assumes "rx_test (res Number) l" "rx_test (res Number) t"
    and "parseFloat l = Some a" "parseFloat t = Some b"
  shows "parser_num2num (l @ CHR ''~'' # t) = Some (ascending a b)"
  using assms by (simp add: parser_num2num_def split_num2num)

lemma parser_numdashnum_eq:
  assumes "rx_test (res Number) l" "rx_test (res Number) t"
    and "parseFloat l = Some a" "parseFloat t = Some b"
  shows "parser_numdashnum (l @ CHR ''-'' # t) = Some (ascending a b)"
proof -
  have "substr2 (l @ CHR ''-'' # t) 0 (int (length l)) = l"
    by (simp add: substr2_def)
  moreover have "substr (l @ CHR ''-'' # t) (int (length l) + 1) = t"
    by (simp add: substr_def nat_add_distrib)
  ultimately show ?thesis
    unfolding parser_numdashnum_def indexOf_dash [OF assms(1)] Let_def
    using assms(3,4) by simp
qed

lemma parser_min2num_eq:
  "parseFloat l = Some a \<Longrightarrow> parser_min2num (CHR ''~'' # l) opts = Some (opt_min opts, a)"
  by (simp add: parser_min2num_def substr_def)

lemma parser_num2max_eq:
  "parseFloat l = Some a \<Longrightarrow> parser_num2max (l @ ''~'') opts = Some (a, opt_max opts)"
  by (simp add: parser_num2max_def butlast_append)

lemma matched_Some: "matched s = Some n \<Longrightarrow> rx_test (res n) s"
  by (auto simp: matched_def split: if_splits)

text \<open>No pattern is matched by a string another pattern matches.\<close>

lemma not_number_tilde: "CHR ''~'' \<in> set s \<Longrightarrow> \<not> rx_test (res Number) s"
  using number_no_tilde by blast

lemma not_min2num_hd: "s \<noteq> [] \<Longrightarrow> hd s \<noteq> CHR ''~'' \<Longrightarrow> \<not> rx_test (res Min2num) s"
  by (auto simp: min2num_decomp)

lemma not_num2max_last: "s \<noteq> [] \<Longrightarrow> last s \<noteq> CHR ''~'' \<Longrightarrow> \<not> rx_test (res Num2max) s"
  by (auto simp: num2max_decomp)

lemma not_num2num_tilde: "CHR ''~'' \<notin> set s \<Longrightarrow> \<not> rx_test (res Num2num) s"
  by (auto simp: num2num_decomp)

lemma matched_number:
  "rx_test (res Number) l \<Longrightarrow> matched l = Some Number"
  by (simp add: matched_def)

lemma matched_min2num:
  assumes "rx_test (res Number) l"
  shows "matched (CHR ''~'' # l) = Some Min2num"
proof -
  have "\<not> rx_test (res Number) (CHR ''~'' # l)"
    by (rule not_number_tilde) simp
  moreover have "rx_test (res Min2num) (CHR ''~'' # l)"
    using assms by (simp add: min2num_decomp)
  ultimately show ?thesis by (simp add: matched_def)
qed

lemma matched_num2max:
  assumes "rx_test (res Number) l"
  shows "matched (l @ ''~'') = Some Num2max"
proof -
  from assms have n: "l \<noteq> []" and h: "hd l \<noteq> CHR ''~''"
    using number_hd [of l] number_not_Nil [of l] by auto
  have "\<not> rx_test (res Number) (l @ ''~'')"
    by (rule not_number_tilde) simp
  moreover have "\<not> rx_test (res Min2num) (l @ ''~'')"
    using n h by (intro not_min2num_hd) simp_all
  moreover have "rx_test (res Num2max) (l @ ''~'')"
    using assms by (auto simp: num2max_decomp)
  ultimately show ?thesis by (simp add: matched_def)
qed

lemma matched_num2num:
  assumes "rx_test (res Number) l" "rx_test (res Number) t"
  shows "matched (l @ CHR ''~'' # t) = Some Num2num"
proof -
  from assms(1) have n: "l \<noteq> []" and h: "hd l \<noteq> CHR ''~''"
    using number_hd [of l] number_not_Nil [of l] by auto
  from assms(2) have t: "t \<noteq> []" and lt: "last t \<noteq> CHR ''~''"
    using number_last [of t] number_not_Nil [of t] by auto
  have "\<not> rx_test (res Number) (l @ CHR ''~'' # t)"
    by (rule not_number_tilde) simp
  moreover have "\<not> rx_test (res Min2num) (l @ CHR ''~'' # t)"
    using n h by (intro not_min2num_hd) simp_all
  moreover have "\<not> rx_test (res Num2max) (l @ CHR ''~'' # t)"
    using t lt by (intro not_num2max_last) simp_all
  moreover have "rx_test (res Num2num) (l @ CHR ''~'' # t)"
    using assms by (auto simp: num2num_decomp)
  ultimately show ?thesis by (simp add: matched_def)
qed

lemma matched_numdashnum:
  assumes "rx_test (res Number) l" "rx_test (res Number) t"
  shows "matched (l @ CHR ''-'' # t) = Some Numdashnum"
proof -
  from assms(1) have n: "l \<noteq> []" and h: "hd l \<noteq> CHR ''~''"
    using number_hd [of l] number_not_Nil [of l] by auto
  from assms(2) have t: "t \<noteq> []" and lt: "last t \<noteq> CHR ''~''"
    using number_last [of t] number_not_Nil [of t] by auto
  from assms have nt: "CHR ''~'' \<notin> set (l @ CHR ''-'' # t)"
    by (auto dest: number_no_tilde)
  have "unsigned (l @ CHR ''-'' # t) = unsigned l @ CHR ''-'' # t"
    using assms(1) by (rule unsigned_append)
  then have "\<not> list_all is_digit (unsigned (l @ CHR ''-'' # t))"
    by simp
  then have "\<not> rx_test (res Number) (l @ CHR ''-'' # t)"
    by (simp add: number_iff)
  moreover have "\<not> rx_test (res Min2num) (l @ CHR ''-'' # t)"
    using n h by (intro not_min2num_hd) simp_all
  moreover have "\<not> rx_test (res Num2max) (l @ CHR ''-'' # t)"
    using t lt by (intro not_num2max_last) simp_all
  moreover have "\<not> rx_test (res Num2num) (l @ CHR ''-'' # t)"
    using nt by (rule not_num2num_tilde)
  moreover have "rx_test (res Numdashnum) (l @ CHR ''-'' # t)"
    using assms by (auto simp: numdashnum_decomp)
  ultimately show ?thesis by (simp add: matched_def)
qed

text \<open>
  A parser never reads \<open>NaN\<close> on a string that matched its pattern: \<open>convert\<close> is
  \<open>None\<close> only when no pattern matches.
\<close>

lemma parser_total:
  assumes "rx_test (res n) s"
  shows "\<exists>r. parser n s opts = Some r"
proof (cases n)
  case Number
  with assms parseFloat_number [of s] show ?thesis
    by (auto simp: parser_number_def)
next
  case Min2num
  with assms obtain l where "rx_test (res Number) l" "s = CHR ''~'' # l"
    by (auto simp: min2num_decomp)
  with Min2num parseFloat_number [of l] show ?thesis
    by (auto simp: parser_min2num_eq)
next
  case Num2max
  with assms obtain l where "rx_test (res Number) l" "s = l @ ''~''"
    by (auto simp: num2max_decomp)
  with Num2max parseFloat_number [of l] show ?thesis
    by (auto simp: parser_num2max_eq)
next
  case Num2num
  with assms obtain l t where "rx_test (res Number) l" "rx_test (res Number) t" "s = l @ CHR ''~'' # t"
    by (auto simp: num2num_decomp)
  with Num2num parseFloat_number [of l] parseFloat_number [of t] show ?thesis
    by (auto simp: parser_num2num_eq)
next
  case Numdashnum
  with assms obtain l t where "rx_test (res Number) l" "rx_test (res Number) t" "s = l @ CHR ''-'' # t"
    by (auto simp: numdashnum_decomp)
  with Numdashnum parseFloat_number [of l] parseFloat_number [of t] show ?thesis
    by (auto simp: parser_numdashnum_eq)
qed

lemma convert_None: "(convert opts s = None) = (matched s = None)"
proof (cases "matched s")
  case None
  then show ?thesis by (simp add: convert_def)
next
  case (Some n)
  with parser_total [OF matched_Some [OF Some], of opts] show ?thesis
    by (auto simp: convert_def)
qed

lemma digit_not_space: "is_digit c \<Longrightarrow> \<not> is_space c"
  by (auto simp: is_digit_def is_space_def)

lemma digit_val_nonneg: "is_digit c \<Longrightarrow> 0 \<le> digit_val c"
  by (auto simp: is_digit_def digit_val_def)

lemma foldl_digits_nonneg:
  "list_all is_digit ds \<Longrightarrow> 0 \<le> acc \<Longrightarrow> 0 \<le> foldl (\<lambda>a c. 10 * a + digit_val c) acc ds"
  by (induction ds arbitrary: acc) (auto simp: digit_val_nonneg)

lemma digits_val_nonneg: "list_all is_digit ds \<Longrightarrow> 0 \<le> digits_val ds"
  by (simp add: digits_val_def foldl_digits_nonneg)

lemma number_of_digits:
  "ds \<noteq> [] \<Longrightarrow> list_all is_digit ds \<Longrightarrow> rx_test (res Number) ds \<and> rx_test (res Number) (CHR ''-'' # ds)"
  by (auto simp: number_decomp)

lemma parseFloat_digits:
  assumes "ds \<noteq> []" "list_all is_digit ds"
  shows "parseFloat ds = Some (digits_val ds)" and "parseFloat (CHR ''-'' # ds) = Some (- digits_val ds)"
proof -
  from assms have h: "hd ds \<noteq> CHR ''-''"
    by (cases ds) auto
  from assms(2) have t: "takeWhile is_digit ds = ds"
    by (simp add: takeWhile_eq_all_conv list_all_iff)
  from h assms(1) have u: "unsigned ds = ds" "unsigned (CHR ''-'' # ds) = ds"
    by (simp_all add: unsigned_def)
  show "parseFloat ds = Some (digits_val ds)"
    by (simp add: parseFloat_unsigned u t assms(1) h)
  show "parseFloat (CHR ''-'' # ds) = Some (- digits_val ds)"
    by (simp add: parseFloat_unsigned u t assms(1))
qed

lemma segments_single:
  assumes "\<forall>c\<in>set t. \<not> is_space c \<and> c \<noteq> CHR '',''"
  shows "segments t = [t]"
proof -
  from assms have "filter (\<lambda>c. \<not> is_space c) t = t"
    by (simp add: filter_id_conv)
  moreover from assms have "CHR '','' \<notin> set t" by blast
  ultimately show ?thesis by (simp add: segments_def split_notin)
qed

lemma tokens_single:
  "t \<noteq> [] \<Longrightarrow> \<forall>c\<in>set t. \<not> is_space c \<and> c \<noteq> CHR '','' \<Longrightarrow> tokens t = [t]"
  by (simp add: tokens_def segments_single)

lemma token_char_not_blank:
  assumes "is_digit c \<or> c = CHR ''-'' \<or> c = CHR ''~''"
  shows "\<not> is_space c \<and> c \<noteq> CHR '',''"
proof -
  have "\<not> is_space CHR ''-''" "\<not> is_space CHR ''~''" "\<not> is_digit CHR '',''"
    by (simp_all add: is_space_def is_digit_def)
  with assms show ?thesis
    by (auto simp: digit_not_space)
qed

lemma token_char_range: "is_digit c \<or> c = CHR ''-'' \<or> c = CHR ''~'' \<Longrightarrow> range_char c"
  by (auto simp: range_char_def)

lemma parse_single:
  assumes "t \<noteq> []" "\<forall>c\<in>set t. is_digit c \<or> c = CHR ''-'' \<or> c = CHR ''~''"
    and "convert opts t = Some r"
  shows "parse opts t = Inr [wrap r]"
proof -
  from assms(2) have "\<forall>c\<in>set t. \<not> is_space c \<and> c \<noteq> CHR '',''"
    using token_char_not_blank by blast
  with assms(1) have "tokens t = [t]" by (rule tokens_single)
  moreover from assms(2) have "list_all range_char t"
    using token_char_range by (auto simp: list_all_iff)
  ultimately show ?thesis using assms(1,3)
    by (simp add: parse_eq List.map_filter_def)
qed

lemma number_token_chars:
  "rx_test (res Number) l \<Longrightarrow> \<forall>c\<in>set l. is_digit c \<or> c = CHR ''-'' \<or> c = CHR ''~''"
  using number_chars by blast

lemma ascending_le: "fst (ascending a b) \<le> snd (ascending a b)"
  by (simp add: ascending_def)

lemma parser_num2num_le: "parser_num2num s = Some (lo, hi) \<Longrightarrow> lo \<le> hi"
proof -
  assume a: "parser_num2num s = Some (lo, hi)"
  have "\<exists>a b. parser_num2num s = Some (ascending a b) \<or> parser_num2num s = None"
    unfolding parser_num2num_def
    by (cases "map parseFloat (split CHR ''~'' s)" rule: list.exhaust)
      (auto split: option.splits list.splits)
  with a obtain x y where "ascending x y = (lo, hi)" by auto
  with ascending_le [of x y] show ?thesis by simp
qed

lemma parser_numdashnum_le: "parser_numdashnum s = Some (lo, hi) \<Longrightarrow> lo \<le> hi"
proof -
  assume a: "parser_numdashnum s = Some (lo, hi)"
  have "\<exists>a b. parser_numdashnum s = Some (ascending a b) \<or> parser_numdashnum s = None"
    unfolding parser_numdashnum_def Let_def
    by (auto split: option.splits)
  with a obtain x y where "ascending x y = (lo, hi)" by auto
  with ascending_le [of x y] show ?thesis by simp
qed

lemma convert_num2num:
  assumes "rx_test (res Number) a" "rx_test (res Number) b"
    and "parseFloat a = Some x" "parseFloat b = Some y"
  shows "convert opts (a @ CHR ''~'' # b) = Some (ascending x y)"
  using assms by (simp add: convert_def matched_num2num parser_num2num_eq)

lemma convert_numdashnum:
  assumes "rx_test (res Number) a" "rx_test (res Number) b"
    and "parseFloat a = Some x" "parseFloat b = Some y"
  shows "convert opts (a @ CHR ''-'' # b) = Some (ascending x y)"
  using assms by (simp add: convert_def matched_numdashnum parser_numdashnum_eq)

lemma convert_min2num:
  assumes "rx_test (res Number) l" "parseFloat l = Some n"
  shows "convert opts (CHR ''~'' # l) = Some (opt_min opts, n)"
  using assms by (simp add: convert_def matched_min2num parser_min2num_eq)

lemma convert_num2max:
  assumes "rx_test (res Number) l" "parseFloat l = Some n"
  shows "convert opts (l @ ''~'') = Some (n, opt_max opts)"
  using assms by (simp add: convert_def matched_num2max parser_num2max_eq)

lemma comma_not_space: "\<not> is_space CHR '',''"
  by (simp add: is_space_def)

lemma segments_comma:
  "segments (u @ CHR '','' # v) = segments u @ segments v"
  by (simp add: segments_def comma_not_space split_append)

lemma tokens_comma:
  "tokens (u @ CHR '','' # v) = tokens u @ tokens v"
  by (simp add: tokens_def segments_comma)

lemma tokens_Nil: "tokens [] = []"
  by (simp add: tokens_def segments_def)

lemma tokens_append:
  assumes "x = [] \<or> last x = CHR '','' \<or> y = [] \<or> hd y = CHR '',''"
  shows "tokens (x @ y) = tokens x @ tokens y"
proof -
  consider "x = []" | "y = []" | "x \<noteq> []" "last x = CHR '',''" | "y \<noteq> []" "hd y = CHR '',''"
    using assms by blast
  then show ?thesis
  proof cases
    case 1
    then show ?thesis by (simp add: tokens_Nil)
  next
    case 2
    then show ?thesis by (simp add: tokens_Nil)
  next
    case 3
    then have x: "x = butlast x @ [CHR '','']"
      by (metis append_butlast_last_id)
    have "tokens (x @ y) = tokens (butlast x @ CHR '','' # y)"
      by (subst x) simp
    also have "\<dots> = tokens (butlast x) @ tokens y"
      by (rule tokens_comma)
    also have "tokens (butlast x) = tokens (butlast x @ CHR '','' # [])"
      by (simp add: tokens_comma tokens_Nil)
    also have "butlast x @ CHR '','' # [] = x"
      using x by simp
    finally show ?thesis .
  next
    case 4
    then have y: "y = CHR '','' # tl y"
      by (cases y) simp_all
    have "tokens (x @ y) = tokens (x @ CHR '','' # tl y)"
      by (subst y) simp
    also have "\<dots> = tokens x @ tokens (tl y)"
      by (rule tokens_comma)
    also have "tokens (tl y) = tokens y"
      using tokens_comma [of "[]" "tl y"] y by (simp add: tokens_Nil)
    finally show ?thesis .
  qed
qed

lemma tokens_segment:
  assumes "CHR '','' \<notin> set seg"
  shows "tokens seg = (if filter (\<lambda>c. \<not> is_space c) seg = [] then []
                       else [filter (\<lambda>c. \<not> is_space c) seg])"
proof -
  from assms have "CHR '','' \<notin> set (filter (\<lambda>c. \<not> is_space c) seg)"
    by simp
  then show ?thesis
    by (simp add: tokens_def segments_def split_notin)
qed

lemma map_filter_append:
  "List.map_filter f (xs @ ys) = List.map_filter f xs @ List.map_filter f ys"
  by (simp add: List.map_filter_def)

lemma convert_segment:
  assumes "CHR '','' \<notin> set seg" "matched (filter (\<lambda>c. \<not> is_space c) seg) = None"
  shows "List.map_filter (convert opts) (tokens seg) = []"
  using assms by (simp add: tokens_segment List.map_filter_def convert_None)

section \<open>The claims\<close>

subsection \<open>C1: the empty string\<close>

text \<open>
  The pattern \<open>/^[\<bslash>s\<bslash>d\<bslash>-~,]+$/\<close> asks for at least one character, so the empty string
  fails the validation and \<open>parse\<close> throws: it does not return an empty array.
\<close>

theorem parse_empty_string_rejected:
  "\<not> rx_test res_range '''' \<and> parse TinyRange '''' = Inl InvalidString"
  by (simp add: parse_def res_range_def rx_test.simps)

text \<open>
  Claim C1, as amended: \<open>parse\<close> of the empty string raises the error of the validation.
  A non-empty string of blanks and commas only passes the validation, has no token and
  gives the empty array, with no error.
\<close>

theorem parse_no_tokens:
  "parse opts '''' = Inl InvalidString \<and>
   (s \<noteq> [] \<and> list_all (\<lambda>c. is_space c \<or> c = CHR '','') s \<longrightarrow>
      rx_test res_range s \<and> tokens s = [] \<and> parse opts s = Inr [])"
proof (intro conjI impI)
  show "parse opts '''' = Inl InvalidString"
    by (simp add: parse_eq)
next
  assume a: "s \<noteq> [] \<and> list_all (\<lambda>c. is_space c \<or> c = CHR '','') s"
  then have r: "list_all range_char s"
    by (auto simp: list_all_iff blank_range_char)
  with a show "rx_test res_range s" by (simp add: range_iff)
  from a show t: "tokens s = []" by (simp add: tokens_blank)
  from a r t show "parse opts s = Inr []"
    by (simp add: parse_eq List.map_filter_def)
qed

theorem parse_no_tokens_witness:
  "parse TinyRange '' ,, '' = Inr [] \<and> tokens '' ,, '' = []"
  using parse_no_tokens [of TinyRange "'' ,, ''"]
  by (simp add: is_space_def)

subsection \<open>C2: the only error\<close>

text \<open>
  The empty string has no character outside the alphabet, and \<open>parse\<close> throws on it.
\<close>

theorem parse_error_empty_string:
  "isl (parse TinyRange '''') \<and> list_all range_char ''''"
  by (simp add: parse_eq)

text \<open>
  Claim C2, as amended: \<open>parse\<close> throws if and only if the string is empty or holds a
  character outside the alphabet (digits, blanks, \<open>-\<close>, \<open>~\<close>, \<open>,\<close>); the error is then the
  one of the validation, nothing else throws, and an error carries no result.
\<close>

theorem parse_error_iff:
  "((\<exists>e. parse opts s = Inl e) = (s = [] \<or> (\<exists>c\<in>set s. \<not> range_char c))) \<and>
   (\<forall>e. parse opts s = Inl e \<longrightarrow> e = InvalidString)"
  by (auto simp: parse_eq list_all_iff)

theorem parse_error_iff_witness:
  "parse TinyRange ''abc'' = Inl InvalidString \<and> (\<exists>c\<in>set ''abc''. \<not> range_char c) \<and>
   parse TinyRange ''1,2'' = Inr [Pair 1 2]"
proof -
  have v: "parse TinyRange ''1,2'' = Inr [Pair 1 2]"
    by code_simp
  have e: "\<exists>c\<in>set ''abc''. \<not> range_char c"
    by (simp add: range_char_def is_space_def is_digit_def)
  with parse_error_iff [of TinyRange "''abc''"] have "parse TinyRange ''abc'' = Inl InvalidString"
    by blast
  with v e show ?thesis by blast
qed

subsection \<open>C3: low and high of a converted token\<close>

text \<open>
  With the default bounds the token \<open>~-5000000000\<close> converts to the range
  \<open>[-4294967295, -5000000000]\<close>, whose low bound is above its high bound: \<open>min2num\<close>
  puts \<open>opts.min\<close> first without comparing it to the number it read.
\<close>

theorem min2num_inverted:
  "convert TinyRange ''~-5000000000'' = Some (- 4294967295, - 5000000000) \<and>
   \<not> (- 4294967295 :: int) \<le> - 5000000000"
proof -
  have "convert TinyRange ''~-5000000000'' = Some (- 4294967295, - 5000000000)"
    by code_simp
  then show ?thesis by simp
qed

text \<open>
  Claim C3, as amended: a token of shape number, num2num or numdashnum converts to a range
  with \<open>low \<le> high\<close>. A token \<open>~n\<close> converts to \<open>(min, n)\<close>, which has \<open>low \<le> high\<close>
  exactly when \<open>min \<le> n\<close>, and a token \<open>n~\<close> converts to \<open>(n, max)\<close>, which has
  \<open>low \<le> high\<close> exactly when \<open>n \<le> max\<close>.
\<close>

theorem convert_low_high:
  assumes "convert opts t = Some (lo, hi)"
  shows "(matched t = Some Number \<or> matched t = Some Num2num \<or> matched t = Some Numdashnum
            \<longrightarrow> lo \<le> hi) \<and>
         (matched t = Some Min2num \<longrightarrow>
            lo = opt_min opts \<and> parseFloat (substr t 1) = Some hi \<and> (lo \<le> hi) = (opt_min opts \<le> hi)) \<and>
         (matched t = Some Num2max \<longrightarrow>
            hi = opt_max opts \<and> parseFloat (butlast t) = Some lo \<and> (lo \<le> hi) = (lo \<le> opt_max opts))"
proof (cases "matched t")
  case None
  with assms show ?thesis by (simp add: convert_def)
next
  case (Some n)
  with assms have p: "parser n t opts = Some (lo, hi)"
    by (simp add: convert_def)
  show ?thesis
  proof (cases n)
    case Number
    with p Some show ?thesis
      by (auto simp: parser_number_def split: option.splits)
  next
    case Min2num
    with p Some show ?thesis
      by (auto simp: parser_min2num_def split: option.splits)
  next
    case Num2max
    with p Some show ?thesis
      by (auto simp: parser_num2max_def split: option.splits)
  next
    case Num2num
    with p Some show ?thesis
      by (auto dest: parser_num2num_le)
  next
    case Numdashnum
    with p Some show ?thesis
      by (auto dest: parser_numdashnum_le)
  qed
qed

theorem convert_low_high_witness:
  "convert TinyRange ''5~2'' = Some (2, 5) \<and> matched ''5~2'' = Some Num2num \<and> (2 :: int) \<le> 5 \<and>
   convert TinyRange ''~3'' = Some (- 4294967295, 3) \<and> matched ''~3'' = Some Min2num \<and>
   parseFloat (substr ''~3'' 1) = Some 3"
proof -
  have c: "convert TinyRange ''5~2'' = Some (2, 5)" by code_simp
  have m: "matched ''5~2'' = Some Num2num" by code_simp
  have c': "convert TinyRange ''~3'' = Some (- 4294967295, 3)" by code_simp
  have m': "matched ''~3'' = Some Min2num" by code_simp
  have 1: "(2 :: int) \<le> 5"
    using convert_low_high [OF c] by (simp add: m)
  have 2: "parseFloat (substr ''~3'' 1) = Some 3"
    using convert_low_high [OF c'] by (simp add: m')
  from c m 1 c' m' 2 show ?thesis
    by (intro conjI)
qed

subsection \<open>C4: the result is sorted, with a gap between any two ranges\<close>

text \<open>
  Claim C4: for every string that \<open>parse\<close> accepts, the returned array is sorted
  ascending by low bound, and it holds no two elements \<open>a\<close> before \<open>b\<close> with
  \<open>b.low \<le> a.high + 1\<close>.
\<close>

theorem parse_sorted_disjoint:
  assumes "parse opts s = Inr out"
  shows "sorted (map low out) \<and>
    (\<forall>i j. i < j \<and> j < length out \<longrightarrow> \<not> low (out ! j) \<le> high (out ! i) + 1)"
proof -
  let ?rg = "sort_key fst (List.map_filter (convert opts) (tokens s))"
  from assms have out: "out = map wrap (merged ?rg)"
    by (simp add: parse_eq split: if_splits)
  have s: "sorted (map fst ?rg)" by simp
  have "map low out = map fst (merged ?rg)"
    by (simp add: out comp_def)
  with merged_sorted [OF s] have 1: "sorted (map low out)" by simp
  have "sorted_wrt (\<lambda>a b. high a + 1 < low b) out
      = sorted_wrt (\<lambda>a b. snd a + 1 < fst b) (merged ?rg)"
    by (simp add: out sorted_wrt_map)
  with merged_gaps [OF s] have "sorted_wrt (\<lambda>a b. high a + 1 < low b) out" by simp
  then have "\<forall>i j. i < j \<and> j < length out \<longrightarrow> \<not> low (out ! j) \<le> high (out ! i) + 1"
    by (fastforce simp: sorted_wrt_iff_nth_less)
  with 1 show ?thesis by blast
qed

theorem parse_sorted_disjoint_witness:
  "parse TinyRange ''7,1-5,3-10,20~30,12'' = Inr [Pair 1 10, Num 12, Pair 20 30] \<and>
   sorted (map low [Pair 1 10, Num 12, Pair 20 30]) \<and>
   \<not> low ([Pair 1 10, Num 12, Pair 20 30] ! 2) \<le> high ([Pair 1 10, Num 12, Pair 20 30] ! 0) + 1"
proof -
  have p: "parse TinyRange ''7,1-5,3-10,20~30,12'' = Inr [Pair 1 10, Num 12, Pair 20 30]"
    by code_simp
  from parse_sorted_disjoint [OF p] have "sorted (map low [Pair 1 10, Num 12, Pair 20 30])"
    and "\<not> low ([Pair 1 10, Num 12, Pair 20 30] ! 2) \<le> high ([Pair 1 10, Num 12, Pair 20 30] ! 0) + 1"
    by simp_all
  with p show ?thesis by blast
qed

subsection \<open>C5: the order of the tokens\<close>

text \<open>
  With the default bounds, \<open>~-5000000000\<close> and \<open>~-6000000000\<close> both give a range whose
  low bound is \<open>min\<close> and whose high bound is below it. The sort leaves the two in the
  order of the input, the loop merges neither into the other, and the two orders of the
  tokens give two different arrays.
\<close>

theorem parse_permuted_tokens_differ:
  "rx_test res_range ''~-5000000000,~-6000000000'' \<and>
   rx_test res_range ''~-6000000000,~-5000000000'' \<and>
   mset (tokens ''~-5000000000,~-6000000000'') = mset (tokens ''~-6000000000,~-5000000000'') \<and>
   parse TinyRange ''~-5000000000,~-6000000000''
     = Inr [Pair (- 4294967295) (- 5000000000), Pair (- 4294967295) (- 6000000000)] \<and>
   parse TinyRange ''~-6000000000,~-5000000000''
     = Inr [Pair (- 4294967295) (- 6000000000), Pair (- 4294967295) (- 5000000000)]"
proof -
  have t1: "tokens ''~-5000000000,~-6000000000'' = [''~-5000000000'', ''~-6000000000'']"
    by code_simp
  have t2: "tokens ''~-6000000000,~-5000000000'' = [''~-6000000000'', ''~-5000000000'']"
    by code_simp
  have "rx_test res_range ''~-5000000000,~-6000000000''" by code_simp
  moreover have "rx_test res_range ''~-6000000000,~-5000000000''" by code_simp
  moreover have "mset (tokens ''~-5000000000,~-6000000000'') = mset (tokens ''~-6000000000,~-5000000000'')"
    unfolding t1 t2 by (simp add: add_mset_commute)
  moreover have "parse TinyRange ''~-5000000000,~-6000000000''
     = Inr [Pair (- 4294967295) (- 5000000000), Pair (- 4294967295) (- 6000000000)]"
    by code_simp
  moreover have "parse TinyRange ''~-6000000000,~-5000000000''
     = Inr [Pair (- 4294967295) (- 6000000000), Pair (- 4294967295) (- 5000000000)]"
    by code_simp
  ultimately show ?thesis by blast
qed

text \<open>
  Claim C5, as amended: for two strings that pass the validation and have the same
  tokens up to their order, \<open>parse\<close> returns the same array, provided every token that
  matches a pattern converts to a range with \<open>low \<le> high\<close>.
\<close>

theorem parse_permuted_tokens:
  assumes "rx_test res_range s1" "rx_test res_range s2"
    and "mset (tokens s1) = mset (tokens s2)"
    and "list_all (\<lambda>r. fst r \<le> snd r) (List.map_filter (convert opts) (tokens s1))"
  shows "parse opts s1 = parse opts s2"
proof -
  from assms(3) have "mset (List.map_filter (convert opts) (tokens s1))
      = mset (List.map_filter (convert opts) (tokens s2))"
    by (rule mset_map_filter)
  from merged_sort_perm [OF this assms(4)] assms(1,2) show ?thesis
    by (simp add: parse_eq range_iff)
qed

theorem parse_permuted_tokens_witness:
  "parse TinyRange ''3-5, 1, 4~9, 1'' = parse TinyRange ''4~9,1,3-5,,1''"
proof (rule parse_permuted_tokens)
  show "rx_test res_range ''3-5, 1, 4~9, 1''" by code_simp
  show "rx_test res_range ''4~9,1,3-5,,1''" by code_simp
  have t1: "tokens ''3-5, 1, 4~9, 1'' = [''3-5'', ''1'', ''4~9'', ''1'']" by code_simp
  have t2: "tokens ''4~9,1,3-5,,1'' = [''4~9'', ''1'', ''3-5'', ''1'']" by code_simp
  show "mset (tokens ''3-5, 1, 4~9, 1'') = mset (tokens ''4~9,1,3-5,,1'')"
    unfolding t1 t2 by (simp add: add_mset_commute)
  show "list_all (\<lambda>r. fst r \<le> snd r) (List.map_filter (convert TinyRange) (tokens ''3-5, 1, 4~9, 1''))"
    by code_simp
qed

subsection \<open>C6: reversed bounds of a num2num token\<close>

text \<open>
  Claim C6: a token \<open>a~b\<close>, with \<open>a\<close> and \<open>b\<close> optionally negative integers of magnitude
  at most \<open>2^53\<close> (the numbers a double holds exactly), is read by the num2num parser, and
  when \<open>a > b\<close> the two are swapped, so that the range is ascending before the merge;
  \<open>parse("5~2")\<close> is \<open>[[2, 5]]\<close>.
\<close>

theorem num2num_swapped:
  assumes "rx_test (res Number) a" "rx_test (res Number) b"
    and "parseFloat a = Some x" "parseFloat b = Some y"
    and "\<bar>x\<bar> \<le> 2 ^ 53" "\<bar>y\<bar> \<le> 2 ^ 53"
  shows "matched (a @ ''~'' @ b) = Some Num2num \<and>
         convert opts (a @ ''~'' @ b) = Some (if x > y then (y, x) else (x, y)) \<and>
         parse opts (a @ ''~'' @ b) = Inr [wrap (if x > y then (y, x) else (x, y))] \<and>
         parse TinyRange ''5~2'' = Inr [Pair 2 5]"
proof -
  have m: "matched (a @ ''~'' @ b) = Some Num2num"
    using assms(1,2) by (simp add: matched_num2num)
  have c: "convert opts (a @ ''~'' @ b) = Some (if x > y then (y, x) else (x, y))"
    using convert_num2num [OF assms(1-4)] by (simp add: ascending_def)
  have n: "a @ ''~'' @ b \<noteq> []" by simp
  have "\<forall>c\<in>set (a @ ''~'' @ b). is_digit c \<or> c = CHR ''-'' \<or> c = CHR ''~''"
    using number_chars [OF assms(1)] number_chars [OF assms(2)] by auto
  from parse_single [OF n this c]
  have p: "parse opts (a @ ''~'' @ b) = Inr [wrap (if x > y then (y, x) else (x, y))]" .
  have e: "parse TinyRange ''5~2'' = Inr [Pair 2 5]"
    by code_simp
  from m c p e show ?thesis by (intro conjI)
qed

theorem num2num_swapped_witness:
  "rx_test (res Number) ''12'' \<and> rx_test (res Number) ''-7'' \<and>
   parseFloat ''12'' = Some 12 \<and> parseFloat ''-7'' = Some (- 7) \<and>
   \<bar>12 :: int\<bar> \<le> 2 ^ 53 \<and> \<bar>- 7 :: int\<bar> \<le> 2 ^ 53 \<and>
   convert TinyRange ''12~-7'' = Some (- 7, 12) \<and>
   parse TinyRange ''12~-7'' = Inr [Pair (- 7) 12]"
proof -
  have 1: "rx_test (res Number) ''12''" by code_simp
  have 2: "rx_test (res Number) ''-7''" by code_simp
  have 3: "parseFloat ''12'' = Some 12" by code_simp
  have 4: "parseFloat ''-7'' = Some (- 7)" by code_simp
  have 5: "\<bar>12 :: int\<bar> \<le> 2 ^ 53" by simp
  have 6: "\<bar>- 7 :: int\<bar> \<le> 2 ^ 53" by simp
  from num2num_swapped [OF 1 2 3 4 5 6, of TinyRange]
  have "convert TinyRange ''12~-7'' = Some (- 7, 12)"
    and "parse TinyRange ''12~-7'' = Inr [Pair (- 7) 12]"
    by (simp_all add: wrap_def)
  with 1 2 3 4 5 6 show ?thesis by (intro conjI)
qed

subsection \<open>C7: the default bounds\<close>

text \<open>
  Claim C7: the default bounds are \<open>min = -(2^32 - 1)\<close> and \<open>max = 2^32 - 1\<close>; with them a
  token \<open>~n\<close> converts to \<open>(min, n)\<close> and a token \<open>n~\<close> to \<open>(n, max)\<close>, for every integer
  \<open>n\<close> of magnitude at most \<open>2^53\<close> (the numbers a double holds exactly), and
  \<open>parse("~3,5~")\<close> is \<open>[[min, 3], [5, max]]\<close>, the two ranges not merged.
\<close>

theorem default_bounds:
  "opt_min TinyRange = - (2 ^ 32 - 1) \<and> opt_max TinyRange = 2 ^ 32 - 1 \<and>
   (rx_test (res Number) l \<and> parseFloat l = Some n \<and> \<bar>n\<bar> \<le> 2 ^ 53 \<longrightarrow>
      convert TinyRange (''~'' @ l) = Some (- (2 ^ 32 - 1), n) \<and>
      convert TinyRange (l @ ''~'') = Some (n, 2 ^ 32 - 1)) \<and>
   parse TinyRange ''~3,5~'' = Inr [Pair (- (2 ^ 32 - 1)) 3, Pair 5 (2 ^ 32 - 1)]"
proof (intro conjI impI)
  show mn: "opt_min TinyRange = - (2 ^ 32 - 1)"
    by (simp add: TinyRange_def)
  show mx: "opt_max TinyRange = 2 ^ 32 - 1"
    by (simp add: TinyRange_def)
  show "parse TinyRange ''~3,5~'' = Inr [Pair (- (2 ^ 32 - 1)) 3, Pair 5 (2 ^ 32 - 1)]"
    by code_simp
next
  assume a: "rx_test (res Number) l \<and> parseFloat l = Some n \<and> \<bar>n\<bar> \<le> 2 ^ 53"
  have mn: "opt_min TinyRange = - (2 ^ 32 - 1)" and mx: "opt_max TinyRange = 2 ^ 32 - 1"
    by (simp_all add: TinyRange_def)
  from a convert_min2num [of l n TinyRange] show "convert TinyRange (''~'' @ l) = Some (- (2 ^ 32 - 1), n)"
    by (simp only: mn append_Cons append_Nil)
  from a convert_num2max [of l n TinyRange] show "convert TinyRange (l @ ''~'') = Some (n, 2 ^ 32 - 1)"
    by (simp only: mx)
qed

theorem default_bounds_witness:
  "rx_test (res Number) ''-40'' \<and> parseFloat ''-40'' = Some (- 40) \<and>
   \<bar>- 40 :: int\<bar> \<le> 2 ^ 53 \<and>
   convert TinyRange ''~-40'' = Some (- 4294967295, - 40) \<and>
   convert TinyRange ''-40~'' = Some (- 40, 4294967295)"
proof -
  have 1: "rx_test (res Number) ''-40''" by code_simp
  have 2: "parseFloat ''-40'' = Some (- 40)" by code_simp
  have 3: "\<bar>- 40 :: int\<bar> \<le> 2 ^ 53" by simp
  from default_bounds [of "''-40''" "- 40"] 1 2 3
  have "convert TinyRange (''~'' @ ''-40'') = Some (- (2 ^ 32 - 1), - 40) \<and>
      convert TinyRange (''-40'' @ ''~'') = Some (- 40, 2 ^ 32 - 1)"
    by blast
  then have "convert TinyRange ''~-40'' = Some (- 4294967295, - 40)"
    and "convert TinyRange ''-40~'' = Some (- 40, 4294967295)"
    by simp_all
  with 1 2 3 show ?thesis by (intro conjI)
qed

subsection \<open>C8: adjacent ranges, and ranges of one value\<close>

text \<open>
  Claim C8: two ranges that follow each other in the sorted array, the second starting
  right after the high bound of the first, are merged into one (\<open>_merge\<close> gives the same
  result as on the array where the two are already one range); a range \<open>[v, v]\<close> is
  returned as the bare number \<open>v\<close>, so that no \<open>[v, v]\<close> is ever returned; and
  \<open>parse("1,3,4")\<close> is \<open>[1, [3, 4]]\<close>.
\<close>

theorem merge_adjacent_collapse:
  "merge (pre @ (a, b) # (b + 1, c) # post) = merge (pre @ (a, max b c) # post) \<and>
   merge [(a, b), (b + 1, c)] = Inr [wrap (a, max b c)] \<and>
   merge [(v, v)] = Inr [Num v] \<and>
   (parse opts s = Inr out \<longrightarrow> Pair v v \<notin> set out) \<and>
   parse TinyRange ''1,3,4'' = Inr [Num 1, Pair 3 4]"
proof (intro conjI impI)
  show "merge (pre @ (a, b) # (b + 1, c) # post) = merge (pre @ (a, max b c) # post)"
    by (simp only: merge_eq merged_adjacent)
  show "merge [(a, b), (b + 1, c)] = Inr [wrap (a, max b c)]"
    by (simp add: merge_eq max_def)
  show "merge [(v, v)] = Inr [Num v]"
    by (simp add: merge_eq wrap_def)
  show "parse TinyRange ''1,3,4'' = Inr [Num 1, Pair 3 4]"
    by code_simp
next
  assume "parse opts s = Inr out"
  then have "out = map wrap (merged (sort_key fst (List.map_filter (convert opts) (tokens s))))"
    by (simp add: parse_eq split: if_splits)
  then show "Pair v v \<notin> set out"
    by (auto simp: wrap_not_Pair_same)
qed

theorem merge_adjacent_collapse_witness:
  "parse TinyRange ''1-5,6-10,7'' = Inr [Pair 1 10] \<and> Pair 7 7 \<notin> set [Pair 1 10] \<and>
   merge [(1, 5), (6, 10)] = Inr [Pair 1 10]"
proof -
  have p: "parse TinyRange ''1-5,6-10,7'' = Inr [Pair 1 10]"
    by code_simp
  note t = merge_adjacent_collapse [of "[]" 1 5 10 "[]" 7 TinyRange "''1-5,6-10,7''" "[Pair 1 10]"]
  from t have "merge [(1, 5), (5 + 1, 10)] = Inr [wrap (1, max 5 10)]"
    by blast
  then have m: "merge [(1, 5), (6, 10)] = Inr [wrap (1, max 5 10)]"
    by simp
  from t p have n: "Pair 7 7 \<notin> set [Pair 1 10]"
    by blast
  from m have "merge [(1, 5), (6, 10)] = Inr [Pair 1 10]"
    by (simp add: wrap_def)
  with p n show ?thesis by blast
qed

subsection \<open>C9: a token that matches no pattern\<close>

text \<open>
  Claim C9: let \<open>seg\<close> be a stretch of the input between two commas (or an end of the
  string), made of characters of the alphabet, whose token (\<open>seg\<close> without its blanks)
  matches none of the five patterns. Then \<open>parse\<close> returns what it returns on the input
  without \<open>seg\<close>, and raises no error; alone, such a token gives the empty array.
\<close>

theorem unmatched_token_skipped:
  assumes "CHR '','' \<notin> set seg" "list_all range_char seg"
    and "matched (filter (\<lambda>c. \<not> is_space c) seg) = None"
    and "list_all range_char s1" "s1 = [] \<or> last s1 = CHR '',''"
    and "list_all range_char s2" "s2 = [] \<or> hd s2 = CHR '',''"
  shows "(s1 @ s2 \<noteq> [] \<longrightarrow>
            parse opts (s1 @ seg @ s2) = parse opts (s1 @ s2) \<and>
            (\<exists>out. parse opts (s1 @ seg @ s2) = Inr out)) \<and>
         (seg \<noteq> [] \<longrightarrow> parse opts seg = Inr [])"
proof (intro conjI impI)
  assume "seg \<noteq> []"
  with assms(1-3) show "parse opts seg = Inr []"
    by (simp add: parse_eq convert_segment)
next
  assume n: "s1 @ s2 \<noteq> []"
  have 1: "tokens (s1 @ seg @ s2) = tokens s1 @ tokens seg @ tokens s2"
  proof -
    have "tokens (s1 @ seg @ s2) = tokens s1 @ tokens (seg @ s2)"
      using assms(5) by (intro tokens_append) blast
    also have "tokens (seg @ s2) = tokens seg @ tokens s2"
      using assms(7) by (intro tokens_append) blast
    finally show ?thesis .
  qed
  have 2: "tokens (s1 @ s2) = tokens s1 @ tokens s2"
    using assms(5) by (intro tokens_append) blast
  have rg: "List.map_filter (convert opts) (tokens (s1 @ seg @ s2))
      = List.map_filter (convert opts) (tokens (s1 @ s2))"
    by (simp add: 1 2 map_filter_append convert_segment [OF assms(1,3)])
  have v: "list_all range_char (s1 @ seg @ s2)" "list_all range_char (s1 @ s2)"
    using assms(2,4,6) by simp_all
  from n have n': "s1 @ seg @ s2 \<noteq> []" by auto
  show "parse opts (s1 @ seg @ s2) = parse opts (s1 @ s2)"
    using v n n' by (simp add: parse_eq rg)
  show "\<exists>out. parse opts (s1 @ seg @ s2) = Inr out"
    using v n' by (simp add: parse_eq)
qed

theorem unmatched_token_skipped_witness:
  "matched ''~'' = None \<and> parse TinyRange ''~'' = Inr [] \<and>
   parse TinyRange ''1, ~ ,3,4'' = parse TinyRange ''1,,3,4'' \<and>
   parse TinyRange ''1,,3,4'' = Inr [Num 1, Pair 3 4]"
proof -
  have f: "filter (\<lambda>c. \<not> is_space c) '' ~ '' = ''~''" by code_simp
  have m: "matched ''~'' = None" by code_simp
  have a1: "CHR '','' \<notin> set '' ~ ''" by simp
  have a2: "list_all range_char '' ~ ''" by code_simp
  have a3: "matched (filter (\<lambda>c. \<not> is_space c) '' ~ '') = None"
    by (simp only: f m)
  have a4: "list_all range_char ''1,''" by code_simp
  have a5: "''1,'' = [] \<or> last ''1,'' = CHR '',''" by simp
  have a6: "list_all range_char '',3,4''" by code_simp
  have a7: "'',3,4'' = [] \<or> hd '',3,4'' = CHR '',''" by simp
  have b1: "CHR '','' \<notin> set ''~''" by simp
  have b2: "list_all range_char ''~''" by code_simp
  have b3: "matched (filter (\<lambda>c. \<not> is_space c) ''~'') = None"
    using m by (simp add: is_space_def)
  have e: "[] = [] \<or> last [] = CHR '',''" "[] = [] \<or> hd [] = CHR '',''" by simp_all
  from unmatched_token_skipped [OF a1 a2 a3 a4 a5 a6 a7, of TinyRange]
  have 1: "parse TinyRange ''1, ~ ,3,4'' = parse TinyRange ''1,,3,4''"
    by simp
  from unmatched_token_skipped [OF b1 b2 b3 _ e(1) _ e(2), of TinyRange]
  have 2: "parse TinyRange ''~'' = Inr []"
    by simp
  have 3: "parse TinyRange ''1,,3,4'' = Inr [Num 1, Pair 3 4]"
    by code_simp
  from m 2 1 3 show ?thesis by (intro conjI)
qed

subsection \<open>C10: two dashes\<close>

text \<open>
  Claim C10: a token \<open>a--b\<close> (digits, two dashes, digits, both numbers at most \<open>2^53\<close>,
  which a double holds exactly) matches the numdashnum pattern and no pattern before it;
  the separator is the first dash from position 1 on, which is the one right after \<open>a\<close>,
  so the token is the range from \<open>a\<close> to \<open>-b\<close>, put in ascending order; \<open>parse("1--2")\<close> is
  \<open>[[-2, 1]]\<close>.
\<close>

theorem numdashnum_double_dash:
  assumes "a \<noteq> []" "list_all is_digit a" "b \<noteq> []" "list_all is_digit b"
    and "digits_val a \<le> 2 ^ 53" "digits_val b \<le> 2 ^ 53"
  shows "rx_test (res Numdashnum) (a @ ''--'' @ b) \<and>
         matched (a @ ''--'' @ b) = Some Numdashnum \<and>
         indexOf (a @ ''--'' @ b) CHR ''-'' 1 = int (length a) \<and>
         convert opts (a @ ''--'' @ b) = Some (- digits_val b, digits_val a) \<and>
         parse opts (a @ ''--'' @ b) = Inr [wrap (- digits_val b, digits_val a)] \<and>
         parse TinyRange ''1--2'' = Inr [Pair (- 2) 1]"
proof -
  let ?t = "a @ CHR ''-'' # (CHR ''-'' # b)"
  have eq: "a @ ''--'' @ b = ?t" by simp
  from assms(1-4) have na: "rx_test (res Number) a" and nb: "rx_test (res Number) (CHR ''-'' # b)"
    by (simp_all add: number_of_digits)
  from assms(1-4) have pa: "parseFloat a = Some (digits_val a)"
    and pb: "parseFloat (CHR ''-'' # b) = Some (- digits_val b)"
    by (simp_all add: parseFloat_digits)
  have m: "matched ?t = Some Numdashnum"
    using na nb by (rule matched_numdashnum)
  then have r: "rx_test (res Numdashnum) ?t"
    by (rule matched_Some)
  have i: "indexOf ?t CHR ''-'' 1 = int (length a)"
    using na by (rule indexOf_dash)
  from assms(2,4) have "0 \<le> digits_val a" "0 \<le> digits_val b"
    by (simp_all add: digits_val_nonneg)
  then have "ascending (digits_val a) (- digits_val b) = (- digits_val b, digits_val a)"
    by (auto simp: ascending_def)
  with convert_numdashnum [OF na nb pa pb, of opts]
  have c: "convert opts ?t = Some (- digits_val b, digits_val a)"
    by simp
  have "?t \<noteq> []" by simp
  moreover have "\<forall>c\<in>set ?t. is_digit c \<or> c = CHR ''-'' \<or> c = CHR ''~''"
    using assms(2,4) by (auto simp: list_all_iff)
  ultimately have p: "parse opts ?t = Inr [wrap (- digits_val b, digits_val a)]"
    using c by (rule parse_single)
  have e: "parse TinyRange ''1--2'' = Inr [Pair (- 2) 1]"
    by code_simp
  from r m i c p e show ?thesis
    unfolding eq by (intro conjI)
qed

theorem numdashnum_double_dash_witness:
  "list_all is_digit ''10'' \<and> list_all is_digit ''25'' \<and>
   digits_val ''10'' \<le> 2 ^ 53 \<and> digits_val ''25'' \<le> 2 ^ 53 \<and>
   matched ''10--25'' = Some Numdashnum \<and>
   convert TinyRange ''10--25'' = Some (- 25, 10) \<and>
   parse TinyRange ''10--25'' = Inr [Pair (- 25) 10]"
proof -
  have 1: "list_all is_digit ''10''" by code_simp
  have 2: "list_all is_digit ''25''" by code_simp
  have 3: "digits_val ''10'' = 10" by code_simp
  have 4: "digits_val ''25'' = 25" by code_simp
  have n: "''10'' \<noteq> []" "''25'' \<noteq> []" by simp_all
  have 5: "digits_val ''10'' \<le> 2 ^ 53" by (simp add: 3)
  have 6: "digits_val ''25'' \<le> 2 ^ 53" by (simp add: 4)
  from numdashnum_double_dash [OF n(1) 1 n(2) 2 5 6, of TinyRange]
  have "matched ''10--25'' = Some Numdashnum"
    and "convert TinyRange ''10--25'' = Some (- 25, 10)"
    and "parse TinyRange ''10--25'' = Inr [Pair (- 25) 10]"
    by (simp_all add: 3 4 wrap_def)
  with 1 2 5 6 show ?thesis by (intro conjI)
qed

end
